theory Spec2Isabelle
  imports Complex_Main "HOL-Library.Multiset"
begin

section \<open>Data model\<close>

text \<open>
  The program is a single C++ file: a maze on a grid of cells, generated by a randomised
  depth-first search, and a player that moves through it under a cooldown.
  C++ \<open>int\<close> is modelled as \<open>int\<close>: every coordinate the program computes is within
  two of a grid index, and a grid whose side is near the 32-bit limit cannot be allocated.
  Rendering state (colour, textures) plays no part in the logic and is left out.
\<close>

text \<open>
  Errors of the embedding. \<open>OutOfBounds\<close>: an array access \<open>a[i]\<close> outside the array
  (undefined behaviour in C++). \<open>BadArrayLength\<close>: \<open>new T[n]\<close> with negative \<open>n\<close>.
\<close>

datatype error = OutOfBounds | BadArrayLength

text \<open>
  \<open>class Cell\<close>: the fields \<open>isWall\<close> and \<open>visited\<close>, with the prefix \<open>cell_\<close>
  (the name \<open>isWall\<close> is the query of the maze below).
\<close>

record Cell =
  cell_isWall :: bool
  cell_visited :: bool

text \<open>The constructor \<open>Cell() : isWall(true), visited(false)\<close>.\<close>

definition new_Cell :: Cell where
  "new_Cell = \<lparr>cell_isWall = True, cell_visited = False\<rparr>"

text \<open>\<open>class Maze\<close>: \<open>grid\<close> is the array of rows, \<open>grid[y][x]\<close> the cell at column x of row y.\<close>

record Maze =
  width :: int
  height :: int
  cellSize :: int
  grid :: "Cell list list"
  exitX :: int
  exitY :: int

subsection \<open>Checked array access\<close>

text \<open>\<open>a[i]\<close> as a read.\<close>

definition item :: "'a list \<Rightarrow> int \<Rightarrow> error + 'a" where
  "item xs i = (if 0 \<le> i \<and> i < int (length xs) then Inr (xs ! nat i) else Inl OutOfBounds)"

text \<open>\<open>a[i] = v\<close>.\<close>

definition store :: "'a list \<Rightarrow> int \<Rightarrow> 'a \<Rightarrow> error + 'a list" where
  "store xs i v = (if 0 \<le> i \<and> i < int (length xs) then Inr (xs[nat i := v]) else Inl OutOfBounds)"

text \<open>\<open>grid[y][x]\<close> as a read.\<close>

definition cell_at :: "Cell list list \<Rightarrow> int \<Rightarrow> int \<Rightarrow> error + Cell" where
  "cell_at g x y = (case item g y of Inl e \<Rightarrow> Inl e | Inr row \<Rightarrow> item row x)"

text \<open>\<open>grid[y][x] = c\<close>: the row is read, updated at x, and is row y of the new grid.\<close>

definition cell_put :: "Cell list list \<Rightarrow> int \<Rightarrow> int \<Rightarrow> Cell \<Rightarrow> error + Cell list list" where
  "cell_put g x y c =
     (case item g y of Inl e \<Rightarrow> Inl e
      | Inr row \<Rightarrow> (case store row x c of Inl e \<Rightarrow> Inl e | Inr row' \<Rightarrow> store g y row'))"

text \<open>\<open>grid[y][x].visited = true\<close>.\<close>

definition set_visited :: "Maze \<Rightarrow> int \<Rightarrow> int \<Rightarrow> error + Maze" where
  "set_visited m x y =
     (case cell_at (grid m) x y of Inl e \<Rightarrow> Inl e
      | Inr c \<Rightarrow> (case cell_put (grid m) x y (c\<lparr>cell_visited := True\<rparr>) of Inl e \<Rightarrow> Inl e
                 | Inr g \<Rightarrow> Inr (m\<lparr>grid := g\<rparr>)))"

text \<open>\<open>grid[y][x].isWall = false\<close>.\<close>

definition clear_wall :: "Maze \<Rightarrow> int \<Rightarrow> int \<Rightarrow> error + Maze" where
  "clear_wall m x y =
     (case cell_at (grid m) x y of Inl e \<Rightarrow> Inl e
      | Inr c \<Rightarrow> (case cell_put (grid m) x y (c\<lparr>cell_isWall := False\<rparr>) of Inl e \<Rightarrow> Inl e
                 | Inr g \<Rightarrow> Inr (m\<lparr>grid := g\<rparr>)))"

subsection \<open>The random source\<close>

text \<open>
  \<open>GetRandomValue\<close> belongs to raylib, not to this program. Its results are a parameter:
  the sequence \<open>d\<close> of the values it returns, in call order; the state of the generator is
  the number of draws made so far. \<open>GetRandomValue(lo, hi)\<close> promises a value between
  \<open>lo\<close> and \<open>hi\<close>; the theorems say which draws they are about.
\<close>

definition GetRandomValue :: "(nat \<Rightarrow> int) \<Rightarrow> int \<Rightarrow> int \<Rightarrow> nat \<Rightarrow> int \<times> nat" where
  "GetRandomValue d lo hi r = (d r, Suc r)"

text \<open>
  The draws that index the array of the four directions. Every value that
  \<open>GetRandomValue(i, 3)\<close> may return for \<open>i\<close> from 0 to 3 is one.
\<close>

definition draws_ok :: "(nat \<Rightarrow> int) \<Rightarrow> bool" where
  "draws_ok d = (\<forall>k. 0 \<le> d k \<and> d k \<le> 3)"

text \<open>
  The four draws from position \<open>r\<close> on are as \<open>GetRandomValue(i, 3)\<close> promises for \<open>i\<close>
  from 0 to 3: the draw of iteration \<open>i\<close> lies between \<open>i\<close> and 3.
\<close>

definition in_range :: "(nat \<Rightarrow> int) \<Rightarrow> nat \<Rightarrow> bool" where
  "in_range d r = (\<forall>i\<in>{0..<4}. int i \<le> d (r + i) \<and> d (r + i) \<le> 3)"

text \<open>A finite list of draws as a draw sequence, and the lists of four draws in range.\<close>

definition draws_from :: "int list \<Rightarrow> nat \<Rightarrow> int" where
  "draws_from js k = (if k < length js then js ! k else 3)"

definition valid_draws :: "int list \<Rightarrow> bool" where
  "valid_draws js = (length js = 4 \<and> in_range (draws_from js) 0)"

section \<open>Maze\<close>

text \<open>\<open>Maze::isInsideGrid\<close>.\<close>

definition isInsideGrid :: "Maze \<Rightarrow> int \<Rightarrow> int \<Rightarrow> bool" where
  "isInsideGrid m x y = (x \<ge> 0 \<and> x < width m \<and> y \<ge> 0 \<and> y < height m)"

subsection \<open>Shuffling the directions\<close>

text \<open>\<open>int directions[4][2] = {{0, -1}, {0, 1}, {-1, 0}, {1, 0}}\<close>.\<close>

definition directions0 :: "(int \<times> int) list" where
  "directions0 = [(0, -1), (0, 1), (-1, 0), (1, 0)]"

text \<open>
  The body of the first loop: \<open>temp = directions[i]; directions[i] = directions[j];
  directions[j] = temp\<close>. The index \<open>i\<close> is the loop counter, \<open>j\<close> was drawn.
\<close>

definition swap_dirs :: "(int \<times> int) list \<Rightarrow> int \<Rightarrow> int \<Rightarrow> error + (int \<times> int) list" where
  "swap_dirs ds i j =
     (case item ds i of Inl e \<Rightarrow> Inl e
      | Inr temp \<Rightarrow>
          (case item ds j of Inl e \<Rightarrow> Inl e
           | Inr dj \<Rightarrow>
               (case store ds i dj of Inl e \<Rightarrow> Inl e
                | Inr ds1 \<Rightarrow> store ds1 j temp)))"

text \<open>\<open>for (int i = 0; i < 4; i++) { int j = GetRandomValue(i, 3); ... }\<close>, from \<open>i\<close> on.\<close>

function shuffle :: "(nat \<Rightarrow> int) \<Rightarrow> int \<Rightarrow> (int \<times> int) list \<Rightarrow> nat
    \<Rightarrow> error + (int \<times> int) list \<times> nat" where
  "shuffle d i ds r =
     (if i < 4 then
        (case GetRandomValue d i 3 r of
           (j, r') \<Rightarrow>
             (case swap_dirs ds i j of Inl e \<Rightarrow> Inl e
              | Inr ds' \<Rightarrow> shuffle d (i + 1) ds' r'))
      else Inr (ds, r))"
  by pat_completeness auto
termination
  by (relation "measure (\<lambda>(d, i, ds, r). nat (4 - i))") auto

subsection \<open>Generation\<close>

text \<open>
  \<open>Maze::generateMazeRecursive(x, y)\<close>. The state is the maze (of which only the grid
  changes) and the number of random draws made. \<open>explore\<close> is the second loop,
  \<open>for (int i = 0; i < 4; i++)\<close> over the shuffled array, written as a recursion over the
  directions still to be tried; \<open>&&\<close> evaluates its right operand only when the left one holds.
\<close>

function generateMazeRecursive :: "(nat \<Rightarrow> int) \<Rightarrow> int \<Rightarrow> int \<Rightarrow> Maze \<times> nat \<Rightarrow> error + Maze \<times> nat"
  and explore :: "(nat \<Rightarrow> int) \<Rightarrow> int \<Rightarrow> int \<Rightarrow> (int \<times> int) list \<Rightarrow> Maze \<times> nat \<Rightarrow> error + Maze \<times> nat"
where
  "generateMazeRecursive d x y (m, r) =
     (case set_visited m x y of Inl e \<Rightarrow> Inl e
      | Inr m1 \<Rightarrow>
          (case clear_wall m1 x y of Inl e \<Rightarrow> Inl e
           | Inr m2 \<Rightarrow>
               (case shuffle d 0 directions0 r of Inl e \<Rightarrow> Inl e
                | Inr (ds, r') \<Rightarrow> explore d x y ds (m2, r'))))"
| "explore d x y [] s = Inr s"
| "explore d x y ((dx, dy) # ds) (m, r) =
     (let nx = x + dx * 2; ny = y + dy * 2 in
      if isInsideGrid m nx ny then
        (case cell_at (grid m) nx ny of Inl e \<Rightarrow> Inl e
         | Inr c \<Rightarrow>
             if \<not> cell_visited c then
               (case clear_wall m (x + dx) (y + dy) of Inl e \<Rightarrow> Inl e
                | Inr m1 \<Rightarrow>
                    (case generateMazeRecursive d nx ny (m1, r) of Inl e \<Rightarrow> Inl e
                     | Inr s' \<Rightarrow> explore d x y ds s'))
             else explore d x y ds (m, r))
      else explore d x y ds (m, r))"
  by pat_completeness auto

text \<open>\<open>Maze::generateMaze\<close>.\<close>

definition generateMaze :: "(nat \<Rightarrow> int) \<Rightarrow> Maze \<times> nat \<Rightarrow> error + Maze \<times> nat" where
  "generateMaze d s = generateMazeRecursive d 1 1 s"

subsection \<open>Construction and queries\<close>

text \<open>
  \<open>grid = new Cell*[height]; for (i < height) grid[i] = new Cell[width]\<close>. A negative
  length makes \<open>new\<close> throw; the rows are allocated only when there is a row.
\<close>

definition new_grid :: "int \<Rightarrow> int \<Rightarrow> error + Cell list list" where
  "new_grid w h =
     (if h < 0 then Inl BadArrayLength
      else if 0 < h \<and> w < 0 then Inl BadArrayLength
      else Inr (replicate (nat h) (replicate (nat w) new_Cell)))"

text \<open>
  The constructor \<open>Maze::Maze(w, h, size, color, exitTex)\<close>, first part: the member
  initialisers and the allocation of the grid. \<open>exitX\<close> and \<open>exitY\<close> are not initialised
  before \<open>generateMaze\<close>, which never reads them; the model starts them at 0.
\<close>

definition Maze_alloc :: "int \<Rightarrow> int \<Rightarrow> int \<Rightarrow> error + Maze" where
  "Maze_alloc w h sz =
     (case new_grid w h of Inl e \<Rightarrow> Inl e
      | Inr g \<Rightarrow> Inr \<lparr>width = w, height = h, cellSize = sz, grid = g, exitX = 0, exitY = 0\<rparr>)"

text \<open>
  The whole constructor, with the number of draws made before it: allocation,
  \<open>generateMaze()\<close>, then \<open>exitX = width - 2; exitY = height - 2;
  grid[exitY][exitX].isWall = false\<close>.
\<close>

definition Maze_new :: "(nat \<Rightarrow> int) \<Rightarrow> int \<Rightarrow> int \<Rightarrow> int \<Rightarrow> nat \<Rightarrow> error + Maze \<times> nat" where
  "Maze_new d w h sz r =
     (case Maze_alloc w h sz of Inl e \<Rightarrow> Inl e
      | Inr m0 \<Rightarrow>
          (case generateMaze d (m0, r) of Inl e \<Rightarrow> Inl e
           | Inr (m1, r') \<Rightarrow>
               (let m2 = m1\<lparr>exitX := width m1 - 2\<rparr>;
                    m3 = m2\<lparr>exitY := height m2 - 2\<rparr>
                in case clear_wall m3 (exitX m3) (exitY m3) of Inl e \<Rightarrow> Inl e
                   | Inr m4 \<Rightarrow> Inr (m4, r'))))"

text \<open>\<open>Maze::isWall\<close>.\<close>

definition isWall :: "Maze \<Rightarrow> int \<Rightarrow> int \<Rightarrow> error + bool" where
  "isWall m x y =
     (if \<not> isInsideGrid m x y then Inr True
      else (case cell_at (grid m) x y of Inl e \<Rightarrow> Inl e | Inr c \<Rightarrow> Inr (cell_isWall c)))"

text \<open>\<open>Maze::isExit\<close>.\<close>

definition isExit :: "Maze \<Rightarrow> int \<Rightarrow> int \<Rightarrow> bool" where
  "isExit m x y = (x = exitX m \<and> y = exitY m)"

section \<open>Player\<close>

text \<open>
  \<open>class Player\<close>; its fields \<open>x\<close>, \<open>y\<close> and \<open>cellSize\<close> carry the prefix \<open>p_\<close>. The
  times are \<open>float\<close>s in the source; the model leaves their type \<open>'t\<close> open and uses
  only its subtraction and its order, a total one (a time read from the clock is a number).
\<close>

record 't Player =
  p_x :: int
  p_y :: int
  p_cellSize :: int
  moveCooldown :: 't
  lastMoveTime :: 't

text \<open>The constructor: \<open>moveCooldown(0.2f), lastMoveTime(0.0f)\<close>.\<close>

definition Player_new :: "int \<Rightarrow> int \<Rightarrow> int \<Rightarrow> ('t::linordered_field) Player" where
  "Player_new startX startY sz =
     \<lparr>p_x = startX, p_y = startY, p_cellSize = sz, moveCooldown = 2 / 10, lastMoveTime = 0\<rparr>"

text \<open>\<open>Player::move(dx, dy, maze)\<close>; \<open>currentTime\<close> is what \<open>GetTime()\<close> returned.\<close>

definition move :: "('t::{minus,linorder}) Player \<Rightarrow> int \<Rightarrow> int \<Rightarrow> Maze \<Rightarrow> 't \<Rightarrow> error + 't Player" where
  "move p dx dy maze currentTime =
     (if currentTime - lastMoveTime p \<ge> moveCooldown p then
        (let newX = p_x p + dx; newY = p_y p + dy
         in case isWall maze newX newY of Inl e \<Rightarrow> Inl e
            | Inr wall \<Rightarrow>
                (let p1 = (if \<not> wall then p\<lparr>p_x := newX, p_y := newY\<rparr> else p)
                 in Inr (p1\<lparr>lastMoveTime := currentTime\<rparr>)))
      else Inr p)"

text \<open>
  A sequence of move attempts, as the game loop makes them: each with its direction and
  the time at which it is made.
\<close>

fun moves :: "('t::{minus,linorder}) Player \<Rightarrow> Maze \<Rightarrow> (int \<times> int \<times> 't) list \<Rightarrow> error + 't Player" where
  "moves p maze [] = Inr p"
| "moves p maze ((dx, dy, t) # rest) =
     (case move p dx dy maze t of Inl e \<Rightarrow> Inl e | Inr p' \<Rightarrow> moves p' maze rest)"

section \<open>Views of the grid\<close>

text \<open>
  The sets of coordinates that the proofs speak about: where the grid has a cell, where
  that cell is marked visited, where it is a passage, and what \<open>isInsideGrid\<close> accepts.
\<close>

definition cells :: "Maze \<Rightarrow> (int \<times> int) set" where
  "cells m = {(x, y). \<exists>c. cell_at (grid m) x y = Inr c}"

definition visited_cells :: "Maze \<Rightarrow> (int \<times> int) set" where
  "visited_cells m = {(x, y). \<exists>c. cell_at (grid m) x y = Inr c \<and> cell_visited c}"

definition passages :: "Maze \<Rightarrow> (int \<times> int) set" where
  "passages m = {(x, y). \<exists>c. cell_at (grid m) x y = Inr c \<and> \<not> cell_isWall c}"

definition inside :: "Maze \<Rightarrow> (int \<times> int) set" where
  "inside m = {(x, y). isInsideGrid m x y}"

definition unvisited :: "Maze \<Rightarrow> (int \<times> int) set" where
  "unvisited m = inside m \<inter> cells m - visited_cells m"

section \<open>Paths through the passages\<close>








section \<open>Runs of the generation\<close>

text \<open>
  The calls of \<open>generateMazeRecursive\<close> and of its second loop that return, as a relation
  between the state before and the state after. Each rule is one path through the code:
  \<open>enter\<close> is a call of \<open>generateMazeRecursive\<close>; \<open>finish\<close> the end of the loop; \<open>skip\<close>
  a direction whose cell two steps away is outside the grid or already visited; \<open>carve\<close>
  a direction that is taken. The proofs about the generation are rule inductions on it.
\<close>

inductive gen_run :: "(nat \<Rightarrow> int) \<Rightarrow> int \<Rightarrow> int \<Rightarrow> Maze \<times> nat \<Rightarrow> Maze \<times> nat \<Rightarrow> bool"
  and explore_run :: "(nat \<Rightarrow> int) \<Rightarrow> int \<Rightarrow> int \<Rightarrow> (int \<times> int) list \<Rightarrow> Maze \<times> nat \<Rightarrow> Maze \<times> nat \<Rightarrow> bool"
where
  enter: "set_visited m x y = Inr m1 \<Longrightarrow> clear_wall m1 x y = Inr m2 \<Longrightarrow>
      shuffle d 0 directions0 r = Inr (ds, r') \<Longrightarrow> explore_run d x y ds (m2, r') s' \<Longrightarrow>
      gen_run d x y (m, r) s'"
| finish: "explore_run d x y [] s s"
| skip: "\<not> isInsideGrid m (x + dx * 2) (y + dy * 2) \<or>
      (\<exists>c. cell_at (grid m) (x + dx * 2) (y + dy * 2) = Inr c \<and> cell_visited c) \<Longrightarrow>
      explore_run d x y ds (m, r) s' \<Longrightarrow>
      explore_run d x y ((dx, dy) # ds) (m, r) s'"
| carve: "isInsideGrid m (x + dx * 2) (y + dy * 2) \<Longrightarrow>
      cell_at (grid m) (x + dx * 2) (y + dy * 2) = Inr c \<Longrightarrow> \<not> cell_visited c \<Longrightarrow>
      clear_wall m (x + dx) (y + dy) = Inr m1 \<Longrightarrow>
      gen_run d (x + dx * 2) (y + dy * 2) (m1, r) s1 \<Longrightarrow>
      explore_run d x y ds s1 s' \<Longrightarrow>
      explore_run d x y ((dx, dy) # ds) (m, r) s'"

section \<open>Concrete inputs\<close>

text \<open>
  Inputs at which the theorems are instantiated: two draw sequences (every draw 3; draw
  \<open>i\<close> at iteration \<open>i\<close>, which swaps nothing) and the mazes that the constructor
  returns for them.
\<close>

definition always3 :: "nat \<Rightarrow> int" where
  "always3 k = 3"

definition no_swap :: "nat \<Rightarrow> int" where
  "no_swap k = int (k mod 4)"

definition wall :: Cell where
  "wall = \<lparr>cell_isWall = True, cell_visited = False\<rparr>"

definition room :: Cell where
  "room = \<lparr>cell_isWall = False, cell_visited = True\<rparr>"

definition maze3 :: Maze where
  "maze3 = \<lparr>width = 3, height = 3, cellSize = 50,
     grid = [[wall, wall, wall], [wall, room, wall], [wall, wall, wall]], exitX = 1, exitY = 1\<rparr>"

definition opened :: Cell where
  "opened = \<lparr>cell_isWall = False, cell_visited = False\<rparr>"


definition maze5 :: Maze where
  "maze5 = \<lparr>width = 5, height = 5, cellSize = 50,
     grid = [[wall, wall, wall, wall, wall],
             [wall, room, opened, room, wall],
             [wall, wall, wall, opened, wall],
             [wall, room, opened, room, wall],
             [wall, wall, wall, wall, wall]], exitX = 3, exitY = 3\<rparr>"



text \<open>The maze of 6 by 5 cells that the constructor returns when nothing is swapped.\<close>

definition maze65 :: Maze where
  "maze65 = \<lparr>width = 6, height = 5, cellSize = 50,
     grid = [[wall, wall, wall, wall, wall, wall],
             [wall, room, wall, room, opened, room],
             [wall, opened, wall, opened, wall, opened],
             [wall, room, opened, room, opened, room],
             [wall, wall, wall, wall, wall, wall]], exitX = 4, exitY = 3\<rparr>"

section \<open>Array access\<close>

text \<open>A write changes the cell written and no other; it succeeds where a read does.\<close>

lemma item_store:
  "store xs i v = Inr ys \<Longrightarrow> item ys j = (if j = i then Inr v else item xs j)"
  by (auto simp: item_def store_def split: if_splits)

lemma cell_at_put:
  "cell_put g x y c = Inr g' \<Longrightarrow>
   cell_at g' x' y' = (if x' = x \<and> y' = y then Inr c else cell_at g x' y')"
  by (auto simp: cell_put_def cell_at_def item_store split: sum.splits if_splits)

lemma cell_put_ok: "cell_at g x y = Inr c0 \<Longrightarrow> \<exists>g'. cell_put g x y c = Inr g'"
  by (auto simp: cell_put_def cell_at_def item_def store_def split: sum.splits if_splits)

section \<open>Termination of the generation\<close>

text \<open>
  Marking a cell and opening a cell change one flag of one cell of the grid. Each call of
  \<open>generateMazeRecursive\<close> marks a cell inside the grid that was not marked, and no call
  unmarks one: the number of unmarked cells inside the grid bounds the depth of the
  recursion, and the length of the list of directions each loop.
\<close>

lemma finite_inside: "finite (inside m)"
proof -
  have "inside m \<subseteq> {0..<width m} \<times> {0..<height m}"
    by (auto simp: inside_def isInsideGrid_def)
  then show ?thesis by (rule finite_subset) simp
qed

lemma finite_unvisited: "finite (unvisited m)"
  using finite_inside [of m] by (simp add: unvisited_def)

lemma set_visited_Inr:
  assumes "set_visited m x y = Inr m'"
  shows "width m' = width m" "height m' = height m" "exitX m' = exitX m" "exitY m' = exitY m"
    "cellSize m' = cellSize m"
    "cells m' = cells m" "(x, y) \<in> cells m"
    "visited_cells m' = insert (x, y) (visited_cells m)"
    "passages m' = passages m"
proof -
  from assms obtain c g where c: "cell_at (grid m) x y = Inr c"
    and g: "cell_put (grid m) x y (c\<lparr>cell_visited := True\<rparr>) = Inr g"
    and m': "m' = m\<lparr>grid := g\<rparr>"
    by (auto simp: set_visited_def split: sum.splits)
  show "width m' = width m" "height m' = height m" "exitX m' = exitX m" "exitY m' = exitY m"
    "cellSize m' = cellSize m"
    by (simp_all add: m')
  show "(x, y) \<in> cells m" using c by (simp add: cells_def)
  show "cells m' = cells m"
    using c by (auto simp: cells_def m' cell_at_put [OF g])
  show "visited_cells m' = insert (x, y) (visited_cells m)"
    using c by (auto simp: visited_cells_def m' cell_at_put [OF g])
  show "passages m' = passages m"
    using c by (auto simp: passages_def m' cell_at_put [OF g])
qed

lemma clear_wall_Inr:
  assumes "clear_wall m x y = Inr m'"
  shows "width m' = width m" "height m' = height m" "exitX m' = exitX m" "exitY m' = exitY m"
    "cellSize m' = cellSize m"
    "cells m' = cells m" "(x, y) \<in> cells m"
    "visited_cells m' = visited_cells m"
    "passages m' = insert (x, y) (passages m)"
proof -
  from assms obtain c g where c: "cell_at (grid m) x y = Inr c"
    and g: "cell_put (grid m) x y (c\<lparr>cell_isWall := False\<rparr>) = Inr g"
    and m': "m' = m\<lparr>grid := g\<rparr>"
    by (auto simp: clear_wall_def split: sum.splits)
  show "width m' = width m" "height m' = height m" "exitX m' = exitX m" "exitY m' = exitY m"
    "cellSize m' = cellSize m"
    by (simp_all add: m')
  show "(x, y) \<in> cells m" using c by (simp add: cells_def)
  show "cells m' = cells m"
    using c by (auto simp: cells_def m' cell_at_put [OF g])
  show "visited_cells m' = visited_cells m"
    using c by (auto simp: visited_cells_def m' cell_at_put [OF g])
  show "passages m' = insert (x, y) (passages m)"
    using c by (auto simp: passages_def m' cell_at_put [OF g])
qed

lemma set_visited_ok:
  assumes "(x, y) \<in> cells m"
  shows "\<exists>m'. set_visited m x y = Inr m'"
proof -
  from assms obtain c where c: "cell_at (grid m) x y = Inr c" by (auto simp: cells_def)
  from cell_put_ok [OF c] obtain g where "cell_put (grid m) x y (c\<lparr>cell_visited := True\<rparr>) = Inr g"
    by blast
  with c show ?thesis by (simp add: set_visited_def)
qed

lemma clear_wall_ok:
  assumes "(x, y) \<in> cells m"
  shows "\<exists>m'. clear_wall m x y = Inr m'"
proof -
  from assms obtain c where c: "cell_at (grid m) x y = Inr c" by (auto simp: cells_def)
  from cell_put_ok [OF c] obtain g where "cell_put (grid m) x y (c\<lparr>cell_isWall := False\<rparr>) = Inr g"
    by blast
  with c show ?thesis by (simp add: clear_wall_def)
qed

lemma inside_cong: "width m' = width m \<Longrightarrow> height m' = height m \<Longrightarrow> inside m' = inside m"
  by (simp add: inside_def isInsideGrid_def)

lemma gen_frame_partial:
  "generateMazeRecursive_explore_dom (Inl (d, x, y, s)) \<Longrightarrow>
     generateMazeRecursive d x y s = Inr s' \<Longrightarrow>
     width (fst s') = width (fst s) \<and> height (fst s') = height (fst s) \<and>
     cells (fst s') = cells (fst s) \<and> visited_cells (fst s) \<subseteq> visited_cells (fst s')"
  "generateMazeRecursive_explore_dom (Inr (d, x, y, ds, s)) \<Longrightarrow>
     explore d x y ds s = Inr s' \<Longrightarrow>
     width (fst s') = width (fst s) \<and> height (fst s') = height (fst s) \<and>
     cells (fst s') = cells (fst s) \<and> visited_cells (fst s) \<subseteq> visited_cells (fst s')"
proof (induction d x y s and d x y ds s arbitrary: s' and s' rule: generateMazeRecursive_explore.pinduct)
  case (1 d x y m r)
  from "1.prems" "1.hyps" obtain m1 m2 ds r' where
    a: "set_visited m x y = Inr m1" and b: "clear_wall m1 x y = Inr m2"
    and c: "shuffle d 0 directions0 r = Inr (ds, r')" and e: "explore d x y ds (m2, r') = Inr s'"
    by (auto simp: generateMazeRecursive.psimps split: sum.splits prod.splits)
  from "1.IH" [OF a b c refl e] set_visited_Inr [OF a] clear_wall_Inr [OF b]
  show ?case by auto
next
  case (2 d x y s)
  then show ?case by (simp add: explore.psimps)
next
  case (3 d x y dx dy ds m r)
  let ?nx = "x + dx * 2" and ?ny = "y + dy * 2"
  from "3.prems" "3.hyps" consider
    (out) "\<not> isInsideGrid m ?nx ?ny" "explore d x y ds (m, r) = Inr s'"
    | (seen) c where "isInsideGrid m ?nx ?ny" "cell_at (grid m) ?nx ?ny = Inr c"
        "\<not> \<not> cell_visited c" "explore d x y ds (m, r) = Inr s'"
    | (go) c m1 s1 where "isInsideGrid m ?nx ?ny" "cell_at (grid m) ?nx ?ny = Inr c"
        "\<not> cell_visited c" "clear_wall m (x + dx) (y + dy) = Inr m1"
        "generateMazeRecursive d ?nx ?ny (m1, r) = Inr s1" "explore d x y ds s1 = Inr s'"
    by (auto simp: explore.psimps Let_def split: sum.splits if_splits)
  then show ?case
  proof cases
    case out
    from "3.IH"(4) [OF refl refl out] show ?thesis .
  next
    case seen
    from "3.IH"(3) [OF refl refl seen] show ?thesis .
  next
    case go
    from "3.IH"(1) [OF refl refl go(1,2,3,4,5)] "3.IH"(2) [OF refl refl go(1,2,3,4,5,6)]
      clear_wall_Inr [OF go(4)]
    show ?thesis by auto
  qed
qed

lemma unvisited_set_visited:
  assumes "set_visited m x y = Inr m1"
  shows "unvisited m1 = unvisited m - {(x, y)}"
proof -
  have "inside m1 = inside m"
    using set_visited_Inr(1,2) [OF assms] by (rule inside_cong)
  then show ?thesis
    unfolding unvisited_def set_visited_Inr(6,8) [OF assms] by blast
qed

lemma unvisited_clear_wall:
  assumes "clear_wall m x y = Inr m1"
  shows "unvisited m1 = unvisited m"
proof -
  have "inside m1 = inside m"
    using clear_wall_Inr(1,2) [OF assms] by (rule inside_cong)
  then show ?thesis
    unfolding unvisited_def clear_wall_Inr(6,8) [OF assms] by simp
qed

lemma unvisited_gen_partial:
  assumes "generateMazeRecursive_explore_dom (Inl (d, x, y, s))"
    and "generateMazeRecursive d x y s = Inr s'"
  shows "unvisited (fst s') \<subseteq> unvisited (fst s)"
proof -
  from gen_frame_partial(1) [OF assms] have
    w: "width (fst s') = width (fst s)" and h: "height (fst s') = height (fst s)"
    and c: "cells (fst s') = cells (fst s)" and v: "visited_cells (fst s) \<subseteq> visited_cells (fst s')"
    by simp_all
  from w h have "inside (fst s') = inside (fst s)" by (rule inside_cong)
  with c v show ?thesis unfolding unvisited_def by blast
qed

termination generateMazeRecursive
proof (relation "inv_image (less_than <*lex*> less_than)
    (\<lambda>a. case a of
       Inl (d, x, y, m, r) \<Rightarrow> (2 * card (unvisited m - {(x, y)}) + 1, 0)
     | Inr (d, x, y, ds, m, r) \<Rightarrow> (2 * card (unvisited m), length ds))")
  show "wf (inv_image (less_than <*lex*> less_than)
    (\<lambda>a. case a of
       Inl (d, x, y, m, r) \<Rightarrow> (2 * card (unvisited m - {(x, y)}) + 1, 0)
     | Inr (d, x, y, ds, m, r) \<Rightarrow> (2 * card (unvisited m), length ds)))"
    by (intro wf_inv_image wf_lex_prod wf_less_than)
next
  fix d x y m r m1 m2 dsr ds r'
  assume "set_visited m x y = Inr m1" "clear_wall m1 x y = Inr m2"
  then have "unvisited m2 = unvisited m - {(x, y)}"
    by (simp add: unvisited_set_visited unvisited_clear_wall)
  then show "(Inr (d, x, y, ds, m2, r'), Inl (d, x, y, m, r)) \<in> inv_image (less_than <*lex*> less_than)
    (\<lambda>a. case a of
       Inl (d, x, y, m, r) \<Rightarrow> (2 * card (unvisited m - {(x, y)}) + 1, 0)
     | Inr (d, x, y, ds, m, r) \<Rightarrow> (2 * card (unvisited m), length ds))"
    by simp
next
  fix d x y dx dy ds m r nx ny c m1
  assume a: "isInsideGrid m nx ny" "cell_at (grid m) nx ny = Inr c" "\<not> cell_visited c"
    "clear_wall m (x + dx) (y + dy) = Inr m1"
  then have "(nx, ny) \<in> unvisited m"
    by (auto simp: unvisited_def inside_def cells_def visited_cells_def)
  moreover have "unvisited m1 = unvisited m" using a(4) by (rule unvisited_clear_wall)
  ultimately have "card (unvisited m1 - {(nx, ny)}) < card (unvisited m)"
    using card_Diff1_less [OF finite_unvisited, of "(nx, ny)" m] by simp
  then show "(Inl (d, nx, ny, m1, r), Inr (d, x, y, (dx, dy) # ds, m, r)) \<in> inv_image (less_than <*lex*> less_than)
    (\<lambda>a. case a of
       Inl (d, x, y, m, r) \<Rightarrow> (2 * card (unvisited m - {(x, y)}) + 1, 0)
     | Inr (d, x, y, ds, m, r) \<Rightarrow> (2 * card (unvisited m), length ds))"
    by simp
next
  fix d x y dx dy ds m r nx ny c m1 s1
  assume a: "clear_wall m (x + dx) (y + dy) = Inr m1"
    "generateMazeRecursive d nx ny (m1, r) = Inr s1"
    "generateMazeRecursive_explore_dom (Inl (d, nx, ny, m1, r))"
  have "unvisited (fst s1) \<subseteq> unvisited m1"
    using unvisited_gen_partial [OF a(3,2)] by simp
  also have "unvisited m1 = unvisited m" using a(1) by (rule unvisited_clear_wall)
  finally have "card (unvisited (fst s1)) \<le> card (unvisited m)"
    using finite_unvisited [of m] by (simp add: card_mono)
  then show "(Inr (d, x, y, ds, s1), Inr (d, x, y, (dx, dy) # ds, m, r)) \<in> inv_image (less_than <*lex*> less_than)
    (\<lambda>a. case a of
       Inl (d, x, y, m, r) \<Rightarrow> (2 * card (unvisited m - {(x, y)}) + 1, 0)
     | Inr (d, x, y, ds, m, r) \<Rightarrow> (2 * card (unvisited m), length ds))"
    by (cases s1) auto
qed simp_all

section \<open>Runs and what they keep\<close>

text \<open>
  Every call that returns a state is a run. A run keeps the dimensions, the exit and the
  cells of the grid, and only adds to the visited cells and to the passages.
\<close>

lemma gen_run_of_Inr:
  "generateMazeRecursive d x y s = Inr s' \<Longrightarrow> gen_run d x y s s'"
  "explore d x y ds s = Inr s' \<Longrightarrow> explore_run d x y ds s s'"
proof (induction d x y s and d x y ds s arbitrary: s' and s' rule: generateMazeRecursive_explore.induct)
  case (1 d x y m r)
  from "1.prems" obtain m1 m2 ds r' where
    a: "set_visited m x y = Inr m1" and b: "clear_wall m1 x y = Inr m2"
    and c: "shuffle d 0 directions0 r = Inr (ds, r')" and e: "explore d x y ds (m2, r') = Inr s'"
    by (auto split: sum.splits prod.splits)
  from "1.IH" [OF a b c refl e] show ?case
    by (rule enter [OF a b c])
next
  case (2 d x y s)
  then show ?case by (simp add: finish)
next
  case (3 d x y dx dy ds m r)
  let ?nx = "x + dx * 2" and ?ny = "y + dy * 2"
  from "3.prems" consider
    (out) "\<not> isInsideGrid m ?nx ?ny" "explore d x y ds (m, r) = Inr s'"
    | (seen) c where "isInsideGrid m ?nx ?ny" "cell_at (grid m) ?nx ?ny = Inr c"
        "\<not> \<not> cell_visited c" "explore d x y ds (m, r) = Inr s'"
    | (go) c m1 s1 where "isInsideGrid m ?nx ?ny" "cell_at (grid m) ?nx ?ny = Inr c"
        "\<not> cell_visited c" "clear_wall m (x + dx) (y + dy) = Inr m1"
        "generateMazeRecursive d ?nx ?ny (m1, r) = Inr s1" "explore d x y ds s1 = Inr s'"
    by (auto simp: Let_def split: sum.splits if_splits)
  then show ?case
  proof cases
    case out
    from "3.IH"(4) [OF refl refl out] out(1) show ?thesis
      by (intro skip) auto
  next
    case seen
    from "3.IH"(3) [OF refl refl seen] seen(2,3) show ?thesis
      by (intro skip) auto
  next
    case go
    from "3.IH"(1) [OF refl refl go(1,2,3,4,5)] "3.IH"(2) [OF refl refl go(1,2,3,4,5,6)]
    show ?thesis
      by (rule carve [OF go(1,2,3,4)])
  qed
qed

lemma run_frame:
  "gen_run d x y s s' \<Longrightarrow>
     width (fst s') = width (fst s) \<and> height (fst s') = height (fst s) \<and>
     exitX (fst s') = exitX (fst s) \<and> exitY (fst s') = exitY (fst s) \<and>
     cellSize (fst s') = cellSize (fst s) \<and>
     cells (fst s') = cells (fst s) \<and> visited_cells (fst s) \<subseteq> visited_cells (fst s') \<and>
     passages (fst s) \<subseteq> passages (fst s')"
  "explore_run d x y ds s s' \<Longrightarrow>
     width (fst s') = width (fst s) \<and> height (fst s') = height (fst s) \<and>
     exitX (fst s') = exitX (fst s) \<and> exitY (fst s') = exitY (fst s) \<and>
     cellSize (fst s') = cellSize (fst s) \<and>
     cells (fst s') = cells (fst s) \<and> visited_cells (fst s) \<subseteq> visited_cells (fst s') \<and>
     passages (fst s) \<subseteq> passages (fst s')"
proof (induction rule: gen_run_explore_run.inducts)
  case (enter m x y m1 m2 d r ds r' s')
  with set_visited_Inr [OF enter(1)] clear_wall_Inr [OF enter(2)] show ?case by auto
next
  case (finish d x y s)
  show ?case by simp
next
  case (skip m x dx y dy d ds r s')
  then show ?case by simp
next
  case (carve m x dx y dy c m1 d r s1 ds s')
  with clear_wall_Inr [OF carve(4)] show ?case by auto
qed

section \<open>The shuffle returns a permutation\<close>

text \<open>
  With both indices inside the array a swap succeeds and permutes it; so does the loop when
  its draws index the array.
\<close>

lemma swap_dirs_Inr:
  assumes "0 \<le> i" "i < int (length ds)" "0 \<le> j" "j < int (length ds)"
  shows "swap_dirs ds i j = Inr (ds[nat i := ds ! nat j, nat j := ds ! nat i])"
  using assms by (simp add: swap_dirs_def item_def store_def)

lemma swap_dirs_mset:
  assumes "0 \<le> i" "i < int (length ds)" "0 \<le> j" "j < int (length ds)"
  shows "\<exists>ds'. swap_dirs ds i j = Inr ds' \<and> mset ds' = mset ds \<and> length ds' = length ds"
proof -
  have "mset (ds[nat i := ds ! nat j, nat j := ds ! nat i]) = mset ds"
    using assms by (intro mset_swap) auto
  with swap_dirs_Inr [OF assms] show ?thesis by simp
qed

lemma shuffle_mset:
  assumes "0 \<le> i" "i \<le> 4" "length ds = 4"
    and "\<forall>k. r \<le> k \<and> k < r + nat (4 - i) \<longrightarrow> 0 \<le> d k \<and> d k \<le> 3"
  shows "\<exists>ds'. shuffle d i ds r = Inr (ds', r + nat (4 - i)) \<and> mset ds' = mset ds"
  using assms
proof (induction d i ds r rule: shuffle.induct)
  case (1 d i ds r)
  show ?case
  proof (cases "i < 4")
    case False
    with "1.prems" have "i = 4" by simp
    then show ?thesis by simp
  next
    case True
    from "1.prems"(4) True have j: "0 \<le> d r" "d r \<le> 3"
      by (auto dest: spec [of _ r])
    from swap_dirs_mset [of i ds "d r"] "1.prems" True j
    obtain ds' where s: "swap_dirs ds i (d r) = Inr ds'" and m: "mset ds' = mset ds"
      and l: "length ds' = length ds" by auto
    have "\<exists>ds''. shuffle d (i + 1) ds' (Suc r) = Inr (ds'', Suc r + nat (4 - (i + 1))) \<and> mset ds'' = mset ds'"
    proof (rule "1.IH" [OF True _ s])
      show "(d r, Suc r) = GetRandomValue d i 3 r" by (simp add: GetRandomValue_def)
      show "0 \<le> i + 1" "i + 1 \<le> 4" using "1.prems" True by auto
      show "length ds' = 4" using l "1.prems" by simp
      show "\<forall>k. Suc r \<le> k \<and> k < Suc r + nat (4 - (i + 1)) \<longrightarrow> 0 \<le> d k \<and> d k \<le> 3"
        using "1.prems"(4) True by auto
    qed
    then obtain ds'' where "shuffle d (i + 1) ds' (Suc r) = Inr (ds'', Suc r + nat (4 - (i + 1)))"
      and "mset ds'' = mset ds'" by blast
    moreover have "Suc r + nat (4 - (i + 1)) = r + nat (4 - i)" using True "1.prems" by auto
    ultimately show ?thesis
      using True s m by (simp add: GetRandomValue_def del: shuffle.simps add: shuffle.simps [of d i ds r])
  qed
qed

lemma shuffle_directions0:
  assumes "draws_ok d"
  shows "\<exists>ds. shuffle d 0 directions0 r = Inr (ds, r + 4) \<and> mset ds = mset directions0"
  using shuffle_mset [of 0 directions0 r d] assms
  by (simp add: draws_ok_def directions0_def)

section \<open>The generation returns\<close>

text \<open>
  When the grid has a cell at every coordinate that \<open>isInsideGrid\<close> accepts and the draws
  index the direction array, a call at a cell inside the grid returns a state: the cell
  two steps away is tested before it is read, and the cell between two cells inside the
  grid is inside it.
\<close>

lemma mid_inside:
  assumes "isInsideGrid m x y" "isInsideGrid m (x + dx * 2) (y + dy * 2)"
  shows "isInsideGrid m (x + dx) (y + dy)"
  using assms by (auto simp: isInsideGrid_def)

lemma gen_succeeds:
  "inside (fst s) \<subseteq> cells (fst s) \<Longrightarrow> draws_ok d \<Longrightarrow> (x, y) \<in> inside (fst s) \<Longrightarrow>
     \<exists>s'. generateMazeRecursive d x y s = Inr s'"
  "inside (fst s) \<subseteq> cells (fst s) \<Longrightarrow> draws_ok d \<Longrightarrow> (x, y) \<in> inside (fst s) \<Longrightarrow>
     \<exists>s'. explore d x y ds s = Inr s'"
proof (induction d x y s and d x y ds s rule: generateMazeRecursive_explore.induct)
  case (1 d x y m r)
  from "1.prems" have xy: "(x, y) \<in> cells m" by auto
  from set_visited_ok [OF xy] obtain m1 where a: "set_visited m x y = Inr m1" ..
  note A = set_visited_Inr [OF a]
  from xy A have "(x, y) \<in> cells m1" by simp
  from clear_wall_ok [OF this] obtain m2 where b: "clear_wall m1 x y = Inr m2" ..
  note B = clear_wall_Inr [OF b]
  from shuffle_directions0 [OF "1.prems"(2), of r] obtain ds where
    c: "shuffle d 0 directions0 r = Inr (ds, r + 4)" by blast
  have i: "inside m2 = inside m" by (rule inside_cong) (simp_all add: A B)
  have "\<exists>s'. explore d x y ds (m2, r + 4) = Inr s'"
    using "1.prems" by (intro "1.IH" [OF a b c refl]) (simp_all add: i A B)
  with a b c show ?case by simp
next
  case (2 d x y s)
  show ?case by simp
next
  case (3 d x y dx dy ds m r)
  let ?nx = "x + dx * 2" and ?ny = "y + dy * 2"
  from "3.prems" have xy: "isInsideGrid m x y" by (simp add: inside_def)
  show ?case
  proof (cases "isInsideGrid m ?nx ?ny")
    case False
    from "3.IH"(4) [OF refl refl False "3.prems"] False show ?thesis by simp
  next
    case True
    with "3.prems"(1) have "(?nx, ?ny) \<in> cells m" by (auto simp: inside_def)
    then obtain c where c: "cell_at (grid m) ?nx ?ny = Inr c" by (auto simp: cells_def)
    show ?thesis
    proof (cases "cell_visited c")
      case v: True
      then have "\<not> \<not> cell_visited c" by simp
      from "3.IH"(3) [OF refl refl True c this "3.prems"] True c v show ?thesis by simp
    next
      case v: False
      from mid_inside [OF xy True] "3.prems"(1) have "(x + dx, y + dy) \<in> cells m"
        by (auto simp: inside_def)
      from clear_wall_ok [OF this] obtain m1 where w: "clear_wall m (x + dx) (y + dy) = Inr m1" ..
      note W = clear_wall_Inr [OF w]
      have i: "inside m1 = inside m" by (rule inside_cong) (simp_all add: W)
      from True have n: "(?nx, ?ny) \<in> inside m" by (simp add: inside_def)
      have "\<exists>s1. generateMazeRecursive d ?nx ?ny (m1, r) = Inr s1"
        using "3.prems" n by (intro "3.IH"(1) [OF refl refl True c v w]) (simp_all add: i W)
      then obtain s1 where g: "generateMazeRecursive d ?nx ?ny (m1, r) = Inr s1" ..
      note F = run_frame(1) [OF gen_run_of_Inr(1) [OF g]]
      have i1: "inside (fst s1) = inside m" using F W by (intro inside_cong) simp_all
      have "\<exists>s'. explore d x y ds s1 = Inr s'"
        using "3.prems" F W by (intro "3.IH"(2) [OF refl refl True c v w g]) (simp_all add: i1)
      with True c v w g show ?thesis by simp
    qed
  qed
qed

section \<open>Constructed mazes\<close>

text \<open>
  What holds of every maze that the constructor returns: its dimensions and exit are the
  ones asked for, its grid has exactly the cells inside the grid, and the start and the
  exit are passages inside it. From 2 by 2 on the constructor returns a maze; below, the
  embedding has the error where the source makes an unchecked access outside the grid.
\<close>

lemma cell_at_replicate:
  "cell_at (replicate (nat h) (replicate (nat w) c)) x y =
     (if 0 \<le> x \<and> x < w \<and> 0 \<le> y \<and> y < h then Inr c else Inl OutOfBounds)"
  by (auto simp: cell_at_def item_def split: if_splits)

lemma Maze_alloc_Inr:
  assumes "Maze_alloc w h sz = Inr m0"
  shows "width m0 = w" "height m0 = h" "cellSize m0 = sz"
    "cells m0 = inside m0" "visited_cells m0 = {}" "passages m0 = {}"
proof -
  from assms have m0: "m0 = \<lparr>width = w, height = h, cellSize = sz,
      grid = replicate (nat h) (replicate (nat w) new_Cell), exitX = 0, exitY = 0\<rparr>"
    by (auto simp: Maze_alloc_def new_grid_def split: if_splits)
  show "width m0 = w" "height m0 = h" "cellSize m0 = sz" by (simp_all add: m0)
  show "cells m0 = inside m0"
    by (auto simp: m0 cells_def inside_def isInsideGrid_def cell_at_replicate)
  show "visited_cells m0 = {}"
    by (auto simp: m0 visited_cells_def cell_at_replicate new_Cell_def)
  show "passages m0 = {}"
    by (auto simp: m0 passages_def cell_at_replicate new_Cell_def)
qed

lemma Maze_alloc_ok: "0 \<le> w \<Longrightarrow> 0 \<le> h \<Longrightarrow> \<exists>m0. Maze_alloc w h sz = Inr m0"
  by (simp add: Maze_alloc_def new_grid_def)

lemma views_exit_update [simp]:
  "cells (m\<lparr>exitX := a\<rparr>) = cells m" "cells (m\<lparr>exitY := b\<rparr>) = cells m"
  "passages (m\<lparr>exitX := a\<rparr>) = passages m" "passages (m\<lparr>exitY := b\<rparr>) = passages m"
  "visited_cells (m\<lparr>exitX := a\<rparr>) = visited_cells m" "visited_cells (m\<lparr>exitY := b\<rparr>) = visited_cells m"
  "inside (m\<lparr>exitX := a\<rparr>) = inside m" "inside (m\<lparr>exitY := b\<rparr>) = inside m"
  by (simp_all add: cells_def passages_def visited_cells_def inside_def isInsideGrid_def)

lemma Maze_new_Inr:
  assumes "Maze_new d w h sz r = Inr (m, r')"
  obtains m0 m1 where "Maze_alloc w h sz = Inr m0" "generateMaze d (m0, r) = Inr (m1, r')"
    "clear_wall (m1\<lparr>exitX := w - 2, exitY := h - 2\<rparr>) (w - 2) (h - 2) = Inr m"
    "width m1 = w" "height m1 = h"
proof -
  from assms obtain m0 m1 where a: "Maze_alloc w h sz = Inr m0"
    and g: "generateMaze d (m0, r) = Inr (m1, r')"
    and c: "clear_wall (m1\<lparr>exitX := width m1 - 2, exitY := height m1 - 2\<rparr>) (width m1 - 2) (height m1 - 2) = Inr m"
    by (auto simp: Maze_new_def Let_def split: sum.splits prod.splits)
  from g have "gen_run d 1 1 (m0, r) (m1, r')"
    unfolding generateMaze_def by (rule gen_run_of_Inr)
  from run_frame(1) [OF this] Maze_alloc_Inr [OF a] have "width m1 = w" "height m1 = h" by simp_all
  with a g c that show ?thesis by simp
qed

lemma gen_run_start:
  assumes "gen_run d x y s s'"
  shows "(x, y) \<in> cells (fst s)" "(x, y) \<in> visited_cells (fst s')" "(x, y) \<in> passages (fst s')"
proof -
  from assms obtain m r m1 m2 ds r' where s: "s = (m, r)" and a: "set_visited m x y = Inr m1"
    and b: "clear_wall m1 x y = Inr m2" and e: "explore_run d x y ds (m2, r') s'"
    by (cases rule: gen_run.cases) auto
  note A = set_visited_Inr [OF a] and B = clear_wall_Inr [OF b] and E = run_frame(2) [OF e]
  show "(x, y) \<in> cells (fst s)" using A s by simp
  show "(x, y) \<in> visited_cells (fst s')" using A B E by auto
  show "(x, y) \<in> passages (fst s')" using A B E by auto
qed

lemma Maze_new_facts:
  assumes "Maze_new d w h sz r = Inr (m, r')"
  shows "width m = w" "height m = h" "exitX m = w - 2" "exitY m = h - 2" "cellSize m = sz"
    "cells m = inside m" "(1, 1) \<in> passages m" "(w - 2, h - 2) \<in> passages m"
    "(1, 1) \<in> inside m" "(w - 2, h - 2) \<in> inside m"
proof -
  from assms obtain m0 m1 where a: "Maze_alloc w h sz = Inr m0"
    and g: "generateMaze d (m0, r) = Inr (m1, r')"
    and c: "clear_wall (m1\<lparr>exitX := w - 2, exitY := h - 2\<rparr>) (w - 2) (h - 2) = Inr m"
    by (rule Maze_new_Inr)
  from g have run: "gen_run d 1 1 (m0, r) (m1, r')"
    unfolding generateMaze_def by (rule gen_run_of_Inr)
  note A = Maze_alloc_Inr [OF a] and F = run_frame(1) [OF run] and S = gen_run_start [OF run]
    and C = clear_wall_Inr [OF c]
  show "width m = w" "height m = h" "exitX m = w - 2" "exitY m = h - 2" "cellSize m = sz"
    using A F C by simp_all
  have i: "inside m = inside m0"
    using A F C by (intro inside_cong) simp_all
  show cm: "cells m = inside m" using A F C i by simp
  show "(1, 1) \<in> passages m" using S C by simp
  show "(w - 2, h - 2) \<in> passages m" using C by simp
  show "(1, 1) \<in> inside m" using S A i by simp
  show "(w - 2, h - 2) \<in> inside m" using C cm by simp
qed

lemma Maze_new_dims:
  assumes "Maze_new d w h sz r = Inr (m, r')"
  shows "2 \<le> w" "2 \<le> h"
  using Maze_new_facts(1,2,9) [OF assms] by (auto simp: inside_def isInsideGrid_def)

lemma Maze_new_ok:
  assumes "2 \<le> w" "2 \<le> h" "draws_ok d"
  shows "\<exists>m r'. Maze_new d w h sz r = Inr (m, r')"
proof -
  from Maze_alloc_ok [of w h sz] assms obtain m0 where a: "Maze_alloc w h sz = Inr m0" by auto
  note A = Maze_alloc_Inr [OF a]
  have "(1, 1) \<in> inside m0" using assms A by (simp add: inside_def isInsideGrid_def)
  with gen_succeeds(1) [of "(m0, r)" d 1 1] A assms obtain m1 r' where
    g: "generateMaze d (m0, r) = Inr (m1, r')" by (auto simp: generateMaze_def)
  from g have run: "gen_run d 1 1 (m0, r) (m1, r')"
    unfolding generateMaze_def by (rule gen_run_of_Inr)
  note F = run_frame(1) [OF run]
  let ?m3 = "m1\<lparr>exitX := width m1 - 2, exitY := height m1 - 2\<rparr>"
  have "(width m1 - 2, height m1 - 2) \<in> inside m0"
    using assms A F by (simp add: inside_def isInsideGrid_def)
  then have "(width m1 - 2, height m1 - 2) \<in> cells ?m3" using A F by simp
  from clear_wall_ok [OF this] obtain m where "clear_wall ?m3 (width m1 - 2) (height m1 - 2) = Inr m" ..
  with a g show ?thesis by (simp add: Maze_new_def)
qed

lemma isWall_outside: "\<not> isInsideGrid m x y \<Longrightarrow> isWall m x y = Inr True"
  by (simp add: isWall_def)

lemma isWall_inside:
  assumes "inside m \<subseteq> cells m" "isInsideGrid m x y"
  shows "isWall m x y = Inr (cell_isWall (grid m ! nat y ! nat x))"
proof -
  from assms have "(x, y) \<in> cells m" by (auto simp: inside_def)
  then obtain c where "cell_at (grid m) x y = Inr c" by (auto simp: cells_def)
  then show ?thesis using assms(2)
    by (auto simp: isWall_def cell_at_def item_def split: sum.splits if_splits)
qed

lemma isWall_False_iff:
  "isWall m x y = Inr False \<longleftrightarrow> (x, y) \<in> inside m \<inter> passages m"
  by (auto simp: isWall_def inside_def passages_def split: sum.splits)

section \<open>Construction and queries\<close>


lemma Maze_new_65: "Maze_new no_swap 6 5 50 0 = Inr (maze65, 24)"
  by code_simp

lemma draws_ok_always3: "draws_ok always3"
  by (simp add: draws_ok_def always3_def)

lemma draws_ok_no_swap: "draws_ok no_swap"
proof -
  have "k mod 4 \<le> 3" for k :: nat by presburger
  then show ?thesis by (simp add: draws_ok_def no_swap_def)
qed

text \<open>
  C2. For a width and a height of at least 3 and any draws that index the direction array,
  the constructor returns a maze whose cell \<open>(width - 2, height - 2)\<close> is a passage, and
  \<open>isExit(x, y)\<close> holds exactly at that coordinate.
\<close>

theorem exit_is_passage:
  assumes "3 \<le> w" "3 \<le> h" "draws_ok d"
  shows "\<exists>m r'. Maze_new d w h sz r = Inr (m, r') \<and> isWall m (w - 2) (h - 2) = Inr False \<and>
           (\<forall>x y. isExit m x y \<longleftrightarrow> x = w - 2 \<and> y = h - 2)"
proof -
  from Maze_new_ok [of w h d sz r] assms obtain m r' where n: "Maze_new d w h sz r = Inr (m, r')"
    by auto
  note F = Maze_new_facts [OF n]
  have "isWall m (w - 2) (h - 2) = Inr False"
    using F(8,10) by (simp add: isWall_False_iff)
  moreover have "\<forall>x y. isExit m x y \<longleftrightarrow> x = w - 2 \<and> y = h - 2"
    using F(3,4) by (simp add: isExit_def)
  ultimately show ?thesis using n by blast
qed

theorem exit_is_passage_witness:
  "(3::int) \<le> 6 \<and> (3::int) \<le> 5 \<and> draws_ok no_swap \<and>
   Maze_new no_swap 6 5 50 0 = Inr (maze65, 24) \<and>
   isWall maze65 (6 - 2) (5 - 2) = Inr False \<and> isExit maze65 4 3 \<and> \<not> isExit maze65 1 1"
proof -
  have w: "(3::int) \<le> 6" and h: "(3::int) \<le> 5" by simp_all
  from exit_is_passage [OF w h draws_ok_no_swap, of 50 0] Maze_new_65
  have "isWall maze65 (6 - 2) (5 - 2) = Inr False" "isExit maze65 4 3" "\<not> isExit maze65 1 1"
    by auto
  with w h draws_ok_no_swap Maze_new_65 show ?thesis by blast
qed

lemma Maze_new_5: "Maze_new always3 5 5 50 0 = Inr (maze5, 16)"
  by code_simp


text \<open>
  C10. For a width and a height of at least 3, no array access of the construction is out
  of bounds. The allocated grid has a cell exactly at the coordinates \<open>(x, y)\<close> with
  \<open>0 \<le> x < width\<close> and \<open>0 \<le> y < height\<close>, and an access elsewhere is the error
  \<open>OutOfBounds\<close>; the generation started at \<open>(1, 1)\<close> returns a maze and not that error,
  \<open>(width - 2, height - 2)\<close> is inside the grid, and the write to it returns the
  constructed maze.
\<close>

theorem construction_in_bounds:
  assumes "3 \<le> w" "3 \<le> h" "draws_ok d"
  shows "\<exists>m0 m1 r' m. Maze_alloc w h sz = Inr m0 \<and>
           (\<forall>x y. cell_at (grid m0) x y =
              (if 0 \<le> x \<and> x < w \<and> 0 \<le> y \<and> y < h then Inr new_Cell else Inl OutOfBounds)) \<and>
           generateMaze d (m0, r) = Inr (m1, r') \<and>
           isInsideGrid m1 (w - 2) (h - 2) \<and>
           clear_wall (m1\<lparr>exitX := w - 2, exitY := h - 2\<rparr>) (w - 2) (h - 2) = Inr m \<and>
           Maze_new d w h sz r = Inr (m, r')"
proof -
  from Maze_new_ok [of w h d sz r] assms obtain m r' where n: "Maze_new d w h sz r = Inr (m, r')"
    by auto
  from n obtain m0 m1 where a: "Maze_alloc w h sz = Inr m0"
    and g: "generateMaze d (m0, r) = Inr (m1, r')"
    and c: "clear_wall (m1\<lparr>exitX := w - 2, exitY := h - 2\<rparr>) (w - 2) (h - 2) = Inr m"
    and d: "width m1 = w" "height m1 = h"
    by (rule Maze_new_Inr)
  from a have "grid m0 = replicate (nat h) (replicate (nat w) new_Cell)"
    by (auto simp: Maze_alloc_def new_grid_def split: if_splits)
  then have "\<forall>x y. cell_at (grid m0) x y =
      (if 0 \<le> x \<and> x < w \<and> 0 \<le> y \<and> y < h then Inr new_Cell else Inl OutOfBounds)"
    by (simp add: cell_at_replicate)
  moreover have "isInsideGrid m1 (w - 2) (h - 2)" using assms d by (simp add: isInsideGrid_def)
  ultimately show ?thesis using a g c n by blast
qed

theorem construction_in_bounds_witness:
  "(3::int) \<le> 5 \<and> draws_ok always3 \<and> Maze_new always3 5 5 50 0 = Inr (maze5, 16) \<and>
   (\<exists>m0 m1. Maze_alloc 5 5 50 = Inr m0 \<and>
      cell_at (grid m0) 4 4 = Inr new_Cell \<and> cell_at (grid m0) 5 4 = Inl OutOfBounds \<and>
      generateMaze always3 (m0, 0) = Inr (m1, 16) \<and>
      isInsideGrid m1 3 3 \<and> clear_wall (m1\<lparr>exitX := 3, exitY := 3\<rparr>) 3 3 = Inr maze5)"
proof -
  have h: "(3::int) \<le> 5" by simp
  from construction_in_bounds [OF h h draws_ok_always3, of 50 0] Maze_new_5
  obtain m0 m1 where a: "Maze_alloc 5 5 50 = Inr m0"
    and c: "\<forall>x y. cell_at (grid m0) x y =
      (if 0 \<le> x \<and> x < 5 \<and> 0 \<le> y \<and> y < 5 then Inr new_Cell else Inl OutOfBounds)"
    and g: "generateMaze always3 (m0, 0) = Inr (m1, 16)"
    and i: "isInsideGrid m1 3 3"
    and e: "clear_wall (m1\<lparr>exitX := 3, exitY := 3\<rparr>) 3 3 = Inr maze5"
    by auto
  from c have "cell_at (grid m0) 4 4 = Inr new_Cell" "cell_at (grid m0) 5 4 = Inl OutOfBounds"
    by simp_all
  with h draws_ok_always3 Maze_new_5 a g i e show ?thesis by blast
qed

text \<open>
  C4. On a constructed maze, \<open>isWall(x, y)\<close> is true when \<open>x < 0\<close>, \<open>x \<ge> width\<close>,
  \<open>y < 0\<close> or \<open>y \<ge> height\<close>, and is the \<open>isWall\<close> flag stored in \<open>grid[y][x]\<close>
  otherwise.
\<close>

theorem isWall_constructed:
  assumes "Maze_new d w h sz r = Inr (m, r')"
  shows "(x < 0 \<or> x \<ge> width m \<or> y < 0 \<or> y \<ge> height m \<longrightarrow> isWall m x y = Inr True) \<and>
         (0 \<le> x \<and> x < width m \<and> 0 \<le> y \<and> y < height m \<longrightarrow>
            isWall m x y = Inr (cell_isWall (grid m ! nat y ! nat x)))"
proof -
  have "inside m \<subseteq> cells m" using Maze_new_facts(6) [OF assms] by simp
  then show ?thesis
    using isWall_outside [of m x y] isWall_inside [of m x y]
    by (auto simp: isInsideGrid_def)
qed

theorem isWall_constructed_witness:
  "Maze_new always3 5 5 50 0 = Inr (maze5, 16) \<and>
   (5::int) \<ge> width maze5 \<and> isWall maze5 5 1 = Inr True \<and>
   (0::int) \<le> 2 \<and> (2::int) < width maze5 \<and> (0::int) \<le> 1 \<and> (1::int) < height maze5 \<and>
   isWall maze5 2 1 = Inr (cell_isWall (grid maze5 ! nat 1 ! nat 2)) \<and>
   cell_isWall (grid maze5 ! nat 1 ! nat 2) = False"
proof -
  have d: "width maze5 = 5" "height maze5 = 5" by (simp_all add: maze5_def)
  have c: "cell_isWall (grid maze5 ! nat 1 ! nat 2) = False"
    by (simp add: maze5_def opened_def)
  from isWall_constructed [OF Maze_new_5, of 5 1] d have "isWall maze5 5 1 = Inr True" by simp
  moreover from isWall_constructed [OF Maze_new_5, of 2 1] d
  have "isWall maze5 2 1 = Inr (cell_isWall (grid maze5 ! nat 1 ! nat 2))" by simp
  ultimately show ?thesis using Maze_new_5 d c by simp
qed

text \<open>
  C7. On a constructed maze, \<open>isWall\<close> returns a value at every pair of integers (it never
  reaches the error of an access outside the grid), and at every coordinate outside the
  grid \<open>isWall\<close> is true and \<open>isExit\<close> is false. Both are functions of the maze and the
  coordinate alone and return no new state.
\<close>

theorem queries_total:
  assumes "Maze_new d w h sz r = Inr (m, r')"
  shows "(\<exists>b. isWall m x y = Inr b) \<and>
         (x < 0 \<or> x \<ge> width m \<or> y < 0 \<or> y \<ge> height m \<longrightarrow>
            isWall m x y = Inr True \<and> \<not> isExit m x y)"
proof -
  note F = Maze_new_facts [OF assms]
  have i: "inside m \<subseteq> cells m" using F(6) by simp
  have "\<exists>b. isWall m x y = Inr b"
    using isWall_outside [of m x y] isWall_inside [OF i, of x y] by (cases "isInsideGrid m x y") auto
  moreover have "isWall m x y = Inr True \<and> \<not> isExit m x y"
    if "x < 0 \<or> x \<ge> width m \<or> y < 0 \<or> y \<ge> height m"
  proof -
    from that have o: "\<not> isInsideGrid m x y" by (auto simp: isInsideGrid_def)
    from F(10) have "isInsideGrid m (exitX m) (exitY m)" using F(3,4) by (simp add: inside_def)
    with o have "\<not> isExit m x y" by (auto simp: isExit_def)
    with o show ?thesis by (simp add: isWall_outside)
  qed
  ultimately show ?thesis by blast
qed

theorem queries_total_witness:
  "Maze_new always3 5 5 50 0 = Inr (maze5, 16) \<and> (\<exists>b. isWall maze5 2 1 = Inr b) \<and>
   (-1 :: int) < 0 \<and> isWall maze5 (-1) 3 = Inr True \<and> \<not> isExit maze5 (-1) 3"
  using queries_total [OF Maze_new_5, of 2 1] queries_total [OF Maze_new_5, of "-1" 3] Maze_new_5
  by simp




section \<open>Moves stay on passages\<close>

lemma moves_stay:
  fixes p :: "('t::{minus,linorder}) Player"
  assumes "\<And>x y. \<exists>b. isWall m x y = Inr b"
  shows "isWall m (p_x p) (p_y p) = Inr False \<Longrightarrow>
         \<exists>p'. moves p m as = Inr p' \<and> isWall m (p_x p') (p_y p') = Inr False"
proof (induction as arbitrary: p)
  case Nil
  then show ?case by simp
next
  case (Cons a as)
  obtain dx dy t where a: "a = (dx, dy, t)" by (cases a)
  from assms obtain b where b: "isWall m (p_x p + dx) (p_y p + dy) = Inr b" by blast
  with Cons.prems obtain p1 where m1: "move p dx dy m t = Inr p1"
    and w1: "isWall m (p_x p1) (p_y p1) = Inr False"
    by (cases b; cases "moveCooldown p \<le> t - lastMoveTime p") (auto simp: move_def)
  from Cons.IH [OF w1] m1 a show ?case by simp
qed

text \<open>
  C8. On a constructed maze, a player at \<open>(1, 1)\<close> is on a passage, and after any sequence
  of move attempts, whatever their directions and times, it is on a passage again.
\<close>

theorem player_on_passage:
  fixes p :: "('t::{minus,linorder}) Player"
  assumes "Maze_new d w h sz r = Inr (m, r')" and "p_x p = 1" and "p_y p = 1"
  shows "\<exists>p'. moves p m as = Inr p' \<and> isWall m (p_x p') (p_y p') = Inr False"
proof -
  note F = Maze_new_facts [OF assms(1)]
  have i: "inside m \<subseteq> cells m" using F(6) by simp
  have tot: "\<exists>b. isWall m x y = Inr b" for x y
    using isWall_outside [of m x y] isWall_inside [OF i, of x y] by (cases "isInsideGrid m x y") auto
  have "isWall m (p_x p) (p_y p) = Inr False"
    using F(7,9) assms(2,3) by (simp add: isWall_False_iff)
  with tot show ?thesis by (rule moves_stay)
qed

theorem player_on_passage_witness:
  "Maze_new always3 5 5 50 0 = Inr (maze5, 16) \<and>
   p_x (Player_new 1 1 50 :: real Player) = 1 \<and> p_y (Player_new 1 1 50 :: real Player) = 1 \<and>
   moves (Player_new 1 1 50 :: real Player) maze5 [(1, 0, 3 / 10), (0, 1, 6 / 10), (1, 0, 7 / 10), (1, 0, 9 / 10)]
     = Inr \<lparr>p_x = 3, p_y = 1, p_cellSize = 50, moveCooldown = 2 / 10, lastMoveTime = 9 / 10\<rparr> \<and>
   isWall maze5 3 1 = Inr False"
proof -
  let ?p = "Player_new 1 1 50 :: real Player"
  let ?as = "[(1, 0, 3 / 10), (0, 1, 6 / 10), (1, 0, 7 / 10), (1, 0, 9 / 10)] :: (int \<times> int \<times> real) list"
  have x: "p_x ?p = 1" and y: "p_y ?p = 1" by (simp_all add: Player_new_def)
  have e: "moves ?p maze5 ?as = Inr \<lparr>p_x = 3, p_y = 1, p_cellSize = 50, moveCooldown = 2 / 10, lastMoveTime = 9 / 10\<rparr>"
    by (simp add: Player_new_def move_def isWall_def isInsideGrid_def maze5_def cell_at_def item_def
        wall_def room_def opened_def)
  from player_on_passage [OF Maze_new_5 x y, of ?as] e have "isWall maze5 3 1 = Inr False" by simp
  with Maze_new_5 x y e show ?thesis by simp
qed

section \<open>The player\<close>

text \<open>
  C6. When the time since the last move is strictly less than the cooldown, \<open>move\<close> leaves
  the whole player state as it was, position and \<open>lastMoveTime\<close> included, whatever the
  direction and the maze.
\<close>

theorem move_cooldown:
  fixes p :: "('t::{minus,linorder}) Player"
  assumes "currentTime - lastMoveTime p < moveCooldown p"
  shows "move p dx dy maze currentTime = Inr p"
  using assms by (simp add: move_def not_le [symmetric])

theorem move_cooldown_witness:
  "(1 / 10 :: real) - lastMoveTime (Player_new 1 1 50) < moveCooldown (Player_new 1 1 50)
   \<and> move (Player_new 1 1 50 :: real Player) 0 1 maze3 (1 / 10) = Inr (Player_new 1 1 50)"
  using move_cooldown [of "1 / 10" "Player_new 1 1 50 :: real Player" 0 1 maze3]
  by (simp add: Player_new_def)

text \<open>
  C5. When the time since the last move is at least the cooldown and the cell at
  \<open>(x + dx, y + dy)\<close> is a wall (which \<open>isWall\<close> also answers outside the grid), \<open>move\<close>
  keeps the position and sets \<open>lastMoveTime\<close> to the current time; any attempt made after
  that before the cooldown has passed again changes nothing, whatever its direction.
\<close>

theorem move_into_wall:
  fixes p :: "('t::{minus,linorder}) Player"
  assumes "moveCooldown p \<le> currentTime - lastMoveTime p"
    and "isWall maze (p_x p + dx) (p_y p + dy) = Inr True"
  shows "\<exists>p'. move p dx dy maze currentTime = Inr p' \<and> p_x p' = p_x p \<and> p_y p' = p_y p \<and>
           lastMoveTime p' = currentTime \<and> p' = p\<lparr>lastMoveTime := currentTime\<rparr> \<and>
           (\<forall>t dx' dy'. t - currentTime < moveCooldown p \<longrightarrow> move p' dx' dy' maze t = Inr p')"
  using assms by (simp add: move_def not_le [symmetric])

theorem move_into_wall_witness:
  "moveCooldown (Player_new 1 1 50 :: real Player) \<le> 3 / 10 - lastMoveTime (Player_new 1 1 50 :: real Player)
   \<and> isWall maze3 (p_x (Player_new 1 1 50 :: real Player) + 1) (p_y (Player_new 1 1 50 :: real Player) + 0) = Inr True
   \<and> move (Player_new 1 1 50 :: real Player) 1 0 maze3 (3 / 10) = Inr ((Player_new 1 1 50)\<lparr>lastMoveTime := 3 / 10\<rparr>)
   \<and> (4 / 10 :: real) - 3 / 10 < moveCooldown (Player_new 1 1 50 :: real Player)
   \<and> move ((Player_new 1 1 50 :: real Player)\<lparr>lastMoveTime := 3 / 10\<rparr>) 0 (-1) maze3 (4 / 10)
       = Inr ((Player_new 1 1 50)\<lparr>lastMoveTime := 3 / 10\<rparr>)"
proof -
  let ?p = "Player_new 1 1 50 :: real Player"
  have h1: "moveCooldown ?p \<le> 3 / 10 - lastMoveTime ?p" by (simp add: Player_new_def)
  have h2: "isWall maze3 (p_x ?p + 1) (p_y ?p + 0) = Inr True"
    by (simp add: Player_new_def isWall_def maze3_def isInsideGrid_def cell_at_def item_def wall_def)
  have h3: "(4 / 10 :: real) - 3 / 10 < moveCooldown ?p" by (simp add: Player_new_def)
  from move_into_wall [OF h1 h2] h3 have "move ?p 1 0 maze3 (3 / 10) = Inr (?p\<lparr>lastMoveTime := 3 / 10\<rparr>)"
    and "move (?p\<lparr>lastMoveTime := 3 / 10\<rparr>) 0 (-1) maze3 (4 / 10) = Inr (?p\<lparr>lastMoveTime := 3 / 10\<rparr>)"
    by auto
  with h1 h2 h3 show ?thesis by blast
qed

section \<open>The shuffle is one to one\<close>

text \<open>
  The lists of four draws in range and the permutations of the four directions are
  enumerated, and the loop is run on each list.
\<close>

lemma valid_draws_enum:
  "valid_draws js \<longleftrightarrow> js \<in> set (filter valid_draws (List.n_lists 4 [0, 1, 2, 3]))"
proof -
  have "set js \<subseteq> {0, 1, 2, 3}" if v: "valid_draws js"
  proof
    fix j assume "j \<in> set js"
    then obtain i where i: "i < length js" and j: "j = js ! i" by (auto simp: in_set_conv_nth)
    from v i have "i \<in> {0..<4}" by (simp add: valid_draws_def)
    with v have "int i \<le> draws_from js (0 + i)" "draws_from js (0 + i) \<le> 3"
      unfolding valid_draws_def in_range_def by blast+
    with i j have "0 \<le> j" "j \<le> 3" by (simp_all add: draws_from_def)
    then show "j \<in> {0, 1, 2, 3}" by auto
  qed
  then show ?thesis
    by (auto simp: set_n_lists valid_draws_def)
qed

lemma permutation_enum:
  "mset p = mset directions0 \<longleftrightarrow> p \<in> set (filter distinct (List.n_lists 4 directions0))"
proof -
  have d0: "distinct directions0" and l0: "length directions0 = 4"
    by (simp_all add: directions0_def)
  have e: "p \<in> set (filter distinct (List.n_lists 4 directions0)) \<longleftrightarrow>
      length p = 4 \<and> set p \<subseteq> set directions0 \<and> distinct p"
    by (simp only: set_filter set_n_lists mem_Collect_eq) blast
  show ?thesis unfolding e
  proof
    assume m: "mset p = mset directions0"
    from mset_eq_length [OF m] l0 have "length p = 4" by simp
    moreover from mset_eq_setD [OF m] have "set p \<subseteq> set directions0" by simp
    moreover from mset_eq_imp_distinct_iff [OF m] d0 have "distinct p" by simp
    ultimately show "length p = 4 \<and> set p \<subseteq> set directions0 \<and> distinct p" by blast
  next
    assume "length p = 4 \<and> set p \<subseteq> set directions0 \<and> distinct p"
    then have l: "length p = 4" and s: "set p \<subseteq> set directions0" and d: "distinct p"
      by blast+
    from d l have "card (set p) = 4" by (simp add: distinct_card)
    moreover from d0 l0 have "card (set directions0) = 4" by (simp add: distinct_card)
    ultimately have "set p = set directions0"
      using s by (intro card_subset_eq) simp_all
    with d d0 show "mset p = mset directions0"
      by (simp only: set_eq_iff_mset_eq_distinct)
  qed
qed

lemma shuffle_onto:
  "\<forall>p\<in>set (filter distinct (List.n_lists 4 directions0)).
     \<exists>js\<in>set (filter valid_draws (List.n_lists 4 [0, 1, 2, 3])).
       shuffle (draws_from js) 0 directions0 0 = Inr (p, 4)"
  by code_simp

lemma shuffle_one_to_one:
  "\<forall>js\<in>set (filter valid_draws (List.n_lists 4 [0, 1, 2, 3])).
     \<forall>js'\<in>set (filter valid_draws (List.n_lists 4 [0, 1, 2, 3])).
       shuffle (draws_from js) 0 directions0 0 = shuffle (draws_from js') 0 directions0 0 \<longrightarrow> js = js'"
  by code_simp

lemma count_24:
  "card (set (filter valid_draws (List.n_lists 4 [0, 1, 2, 3]))) = 24"
  "card (set (filter distinct (List.n_lists 4 directions0))) = 24"
  by code_simp+

lemma in_range_always3: "in_range always3 0"
  by (simp add: in_range_def always3_def)

lemma shuffle_always3: "shuffle (draws_from [3, 3, 3, 3]) 0 directions0 0 = Inr ([(1, 0), (0, -1), (0, 1), (-1, 0)], 4)"
  by code_simp

lemma valid_3333: "valid_draws [3, 3, 3, 3]"
  by code_simp

text \<open>
  C9. When the draw of each iteration \<open>i\<close> lies between \<open>i\<close> and 3, the first loop turns
  the array of the four directions into a permutation of it. There are 24 lists of four
  such draws and 24 permutations, and each permutation is the result of exactly one list:
  when each draw is uniform on its range and independent of the others, every list has the
  probability 1/24, and so has every permutation.
\<close>

theorem shuffle_uniform:
  "(in_range d r \<longrightarrow>
      (\<exists>ds. shuffle d 0 directions0 r = Inr (ds, r + 4) \<and> mset ds = mset directions0)) \<and>
   card {js. valid_draws js} = 24 \<and> card {p. mset p = mset directions0} = 24 \<and>
   (\<forall>p. mset p = mset directions0 \<longrightarrow>
      (\<exists>!js. valid_draws js \<and> shuffle (draws_from js) 0 directions0 0 = Inr (p, 4)))"
proof -
  have 1: "\<exists>ds. shuffle d 0 directions0 r = Inr (ds, r + 4) \<and> mset ds = mset directions0"
    if "in_range d r"
  proof -
    have "0 \<le> d k \<and> d k \<le> 3" if "r \<le> k \<and> k < r + 4" for k
    proof -
      from that obtain i where k: "k = r + i" and i: "i \<in> {0..<4}"
        by (auto simp: le_iff_add)
      from \<open>in_range d r\<close> i have "int i \<le> d (r + i)" "d (r + i) \<le> 3"
        unfolding in_range_def by blast+
      with k show ?thesis by simp
    qed
    with shuffle_mset [of 0 directions0 r d] show ?thesis
      by (simp add: directions0_def)
  qed
  have 2: "{js. valid_draws js} = set (filter valid_draws (List.n_lists 4 [0, 1, 2, 3]))"
    using valid_draws_enum by blast
  have 3: "{p. mset p = mset directions0} = set (filter distinct (List.n_lists 4 directions0))"
    using permutation_enum by blast
  have 4: "\<exists>!js. valid_draws js \<and> shuffle (draws_from js) 0 directions0 0 = Inr (p, 4)"
    if "mset p = mset directions0" for p
  proof -
    from that have "p \<in> set (filter distinct (List.n_lists 4 directions0))"
      by (simp only: permutation_enum)
    with shuffle_onto obtain js where js: "js \<in> set (filter valid_draws (List.n_lists 4 [0, 1, 2, 3]))"
      and s: "shuffle (draws_from js) 0 directions0 0 = Inr (p, 4)" by blast
    show ?thesis
    proof (rule ex1I)
      from js s show "valid_draws js \<and> shuffle (draws_from js) 0 directions0 0 = Inr (p, 4)"
        by (simp only: valid_draws_enum [symmetric] simp_thms)
    next
      fix js' assume "valid_draws js' \<and> shuffle (draws_from js') 0 directions0 0 = Inr (p, 4)"
      then have "js' \<in> set (filter valid_draws (List.n_lists 4 [0, 1, 2, 3]))"
        and "shuffle (draws_from js') 0 directions0 0 = shuffle (draws_from js) 0 directions0 0"
        using s by (simp_all only: valid_draws_enum [symmetric])
      with shuffle_one_to_one js show "js' = js" by blast
    qed
  qed
  from 1 2 3 4 count_24 show ?thesis by (simp only: simp_thms) blast
qed

theorem shuffle_uniform_witness:
  "in_range always3 0 \<and>
   (\<exists>ds. shuffle always3 0 directions0 0 = Inr (ds, 0 + 4) \<and> mset ds = mset directions0) \<and>
   mset [(1, 0), (0, -1), (0, 1), (-1, 0)] = mset directions0 \<and>
   (\<exists>!js. valid_draws js \<and>
      shuffle (draws_from js) 0 directions0 0 = Inr ([(1, 0), (0, -1), (0, 1), (-1, 0)], 4)) \<and>
   valid_draws [3, 3, 3, 3] \<and>
   shuffle (draws_from [3, 3, 3, 3]) 0 directions0 0 = Inr ([(1, 0), (0, -1), (0, 1), (-1, 0)], 4)"
proof -
  have m: "mset [(1, 0), (0, -1), (0, 1), (-1, 0)] = mset directions0"
    by (simp add: directions0_def)
  from shuffle_uniform [of always3 0] in_range_always3
  have a: "\<exists>ds. shuffle always3 0 directions0 0 = Inr (ds, 0 + 4) \<and> mset ds = mset directions0"
    by blast
  from shuffle_uniform [of always3 0] m
  have b: "\<exists>!js. valid_draws js \<and>
      shuffle (draws_from js) 0 directions0 0 = Inr ([(1, 0), (0, -1), (0, 1), (-1, 0)], 4)"
    by blast
  from in_range_always3 a m b valid_3333 shuffle_always3 show ?thesis by blast
qed

section \<open>Trees of cells\<close>







section \<open>What a carving step keeps\<close>




section \<open>What a run keeps\<close>








section \<open>The cells that are reached\<close>





section \<open>The carved passages form a tree\<close>











section \<open>After the generation: the exit cell\<close>





end
